theory Spec2Isabelle
  imports Main "HOL-Library.Sublist"
begin

section \<open>Values, results and promises\<close>

text \<open>
  The library is generic in the value type \<open>T\<close> and the error type \<open>E\<close>, but at run time both
  slots of a result hold plain JavaScript values, and \<open>undefined\<close> is one of them: a promise
  may resolve with \<open>undefined\<close> (every \<open>Promise<void>\<close> does) and \<open>throw undefined\<close> is legal.
  \<open>val\<close> is a small universe of such values with \<open>undefined\<close> as a member.
\<close>

datatype val =
    Undefined
  | Num int
  | Str string
  | Error string
  | AggregateError "val list"

text \<open>
  \<^verbatim>\<open>type Result<T, E> = [value: T, error: undefined] | [value: undefined, error: E]\<close>:
  at run time a two-slot array. A \<open>Result\<close> is the content of its two slots, which is all
  that \<open>deferrable\<close> reads of it (\<^verbatim>\<open>const [value, error] = result\<close>).
\<close>

type_synonym Result = "val \<times> val"

definition ok :: "val \<Rightarrow> Result" where
  "ok value = (value, Undefined)"

definition failure :: "val \<Rightarrow> Result" where
  "failure error = (Undefined, error)"

text \<open>
  What \<open>await\<close> observes of a promise: it is fulfilled with a value, it is rejected with an
  error, or it never settles and the awaiting function never resumes. A settled promise is
  a \<open>settled\<close> value; \<open>None\<close> is the promise that never settles.
\<close>

datatype 'a settled = Fulfilled 'a | Rejected val

type_synonym 'a promise = "'a settled option"

text \<open>
  \<^verbatim>\<open>async function wrap(promise) { try { const value = await promise; return ok(value); }
     catch (error) { return failure(error); } }\<close>
\<close>

definition wrap :: "val promise \<Rightarrow> Result promise" where
  "wrap promise =
     (case promise of
        None \<Rightarrow> None
      | Some (Fulfilled value) \<Rightarrow> Some (Fulfilled (ok value))
      | Some (Rejected error) \<Rightarrow> Some (Fulfilled (failure error)))"

section \<open>Deferred callbacks and the main callback\<close>

text \<open>
  A deferred callback is caller code. \<open>deferrable\<close> creates one result array and hands that
  same array to every callback (\<^verbatim>\<open>await exec(result)\<close>); the tuple type is not read-only,
  so a callback may write to it, and what it writes is there for the callbacks invoked
  after it, and for \<open>deferrable\<close> itself where it reads the array after the loop.

  What \<open>deferrable\<close> can see of one invocation \<open>await exec(result)\<close> is therefore (1) the
  callbacks that were passed to \<open>defer\<close> while the invocation was running (a callback is a
  closure and may have captured \<open>defer\<close>), in the order of the \<open>defer\<close> calls, (2) how the
  awaited call completes: normally, with an error (a synchronous throw and a rejected
  promise are caught by the same \<open>catch\<close>), or never, and (3) the content of the result
  array when the call has completed. \<open>call exec result\<close> gives the three, for the content
  \<open>result\<close> the array has when the callback is invoked. The type is a codatatype, so a
  callback may register itself again, for ever. \<open>name\<close> stands for the identity of the
  function object; the tests of the repository tell callbacks apart by the string each
  one pushes to \<open>calls\<close>.
\<close>

codatatype DeferredCallback =
  DeferredCallback (name: string)
    (call: "Result \<Rightarrow> DeferredCallback list \<times> unit promise \<times> Result")

text \<open>
  The call \<open>fn(defer)\<close> of the main callback
  (\<^verbatim>\<open>fn: (defer: Defer<T, E>) => Promise<T>\<close>) either returns a promise, as every async
  function does, or, \<open>fn\<close> being an ordinary function of that type, throws before it has
  returned one. \<open>defers fn\<close> are the callbacks passed to \<open>defer\<close> before \<open>deferrable\<close> starts
  to drain the stack (before the throw, when \<open>fn\<close> throws), in call order. What is passed
  to \<open>defer\<close> later, while the stack is drained, is accounted to the invocation during
  which it is pushed.
\<close>

datatype invocation = Throws val | Returns "val promise"

record Fn =
  defers :: "DeferredCallback list"
  invoke :: invocation

text \<open>
  \<^verbatim>\<open>const defer = (exec) => { stack.push(exec); }\<close>: the stack is a JavaScript array whose
  top is its last element.
\<close>

definition defer_exec :: "DeferredCallback \<Rightarrow> DeferredCallback list \<Rightarrow> DeferredCallback list" where
  "defer_exec exec stack = stack @ [exec]"

text \<open>
  What a run of \<open>deferrable\<close> leaves behind: how its promise settled, and the invocations
  \<open>exec(result)\<close> it made, in the order it made them, each with the content the result
  array had when the callback was invoked. The list of invocations is not a variable of
  the source; the loops below carry it along as \<open>trace\<close> so that theorems can speak of
  which callbacks were invoked, in which order and with which argument.
\<close>

record Run =
  settled :: "val settled"
  calls :: "(DeferredCallback \<times> Result) list"

section \<open>The first variant: errors of deferred callbacks are swallowed\<close>

text \<open>
  \<^verbatim>\<open>while (stack.length) { const exec = stack.pop()!; try { await exec(result); } catch { } }\<close>
  \<open>pop\<close> takes the last element off the array; what the callback pushes while it runs lands
  on what is left, and what it writes to the result array stays there. The loop has no
  bound: \<open>None\<close> is the loop that never ends, or that waits for ever on a callback that
  never settles. The loop returns the content of the result array as the last callback
  left it, since this variant reads the array after the loop.
\<close>

partial_function (option) drain_first ::
  "Result \<Rightarrow> DeferredCallback list \<Rightarrow> (DeferredCallback \<times> Result) list
     \<Rightarrow> ((DeferredCallback \<times> Result) list \<times> Result) option" where
  "drain_first result stack trace =
     (if stack = [] then Some (trace, result)
      else
        let exec = last stack; stack' = butlast stack in
        case call exec result of
          (deferred, None, result') \<Rightarrow> None
        | (deferred, Some _, result') \<Rightarrow>
            drain_first result' (foldl (\<lambda>stack exec. defer_exec exec stack) stack' deferred)
              (trace @ [(exec, result)]))"

text \<open>
  \<^verbatim>\<open>const result = await wrap(fn(defer)); while ...;
     const [value, error] = result; if (error !== undefined) throw error; return value;\<close>
  The argument \<open>fn(defer)\<close> is evaluated before \<open>wrap\<close> is entered: when it throws, the
  exception leaves \<open>deferrable\<close> at once, nothing is captured and nothing is drained.
\<close>

definition deferrable_first :: "Fn \<Rightarrow> Run option" where
  "deferrable_first fn =
     (let stack = foldl (\<lambda>stack exec. defer_exec exec stack) [] (defers fn) in
      case invoke fn of
        Throws thrown \<Rightarrow> Some \<lparr>settled = Rejected thrown, calls = []\<rparr>
      | Returns promise \<Rightarrow>
          (case wrap promise of
             None \<Rightarrow> None
           | Some (Rejected thrown) \<Rightarrow> Some \<lparr>settled = Rejected thrown, calls = []\<rparr>
           | Some (Fulfilled result) \<Rightarrow>
               (case drain_first result stack [] of
                  None \<Rightarrow> None
                | Some (trace, result') \<Rightarrow>
                    (case result' of (value, error) \<Rightarrow>
                       if error \<noteq> Undefined then Some \<lparr>settled = Rejected error, calls = trace\<rparr>
                       else Some \<lparr>settled = Fulfilled value, calls = trace\<rparr>))))"

section \<open>The second variant: fail fast on the error of a deferred callback\<close>

text \<open>
  \<^verbatim>\<open>while (stack.length) { const exec = stack.pop()!;
     try { await exec(result); } catch (error) { throw error; } }\<close>
  The loop returns the invocations made and, when a callback failed, the error that left
  the loop.
\<close>

partial_function (option) drain_second ::
  "Result \<Rightarrow> DeferredCallback list \<Rightarrow> (DeferredCallback \<times> Result) list
     \<Rightarrow> ((DeferredCallback \<times> Result) list \<times> val option) option" where
  "drain_second result stack trace =
     (if stack = [] then Some (trace, None)
      else
        let exec = last stack; stack' = butlast stack in
        case call exec result of
          (deferred, None, result') \<Rightarrow> None
        | (deferred, Some (Rejected error), result') \<Rightarrow>
            Some (trace @ [(exec, result)], Some error)
        | (deferred, Some (Fulfilled _), result') \<Rightarrow>
            drain_second result' (foldl (\<lambda>stack exec. defer_exec exec stack) stack' deferred)
              (trace @ [(exec, result)]))"

text \<open>
  \<^verbatim>\<open>const result = await wrap(fn(defer)); const [value, mainError] = result; while ...;
     if (mainError !== undefined) { throw mainError; } return value;\<close>
  This variant reads the two slots before the loop: what the callbacks write to the array
  reaches the callbacks after them, not the outcome of the run.
\<close>

definition deferrable_second :: "Fn \<Rightarrow> Run option" where
  "deferrable_second fn =
     (let stack = foldl (\<lambda>stack exec. defer_exec exec stack) [] (defers fn) in
      case invoke fn of
        Throws thrown \<Rightarrow> Some \<lparr>settled = Rejected thrown, calls = []\<rparr>
      | Returns promise \<Rightarrow>
          (case wrap promise of
             None \<Rightarrow> None
           | Some (Rejected thrown) \<Rightarrow> Some \<lparr>settled = Rejected thrown, calls = []\<rparr>
           | Some (Fulfilled result) \<Rightarrow>
               (case result of (value, mainError) \<Rightarrow>
                  (case drain_second result stack [] of
                     None \<Rightarrow> None
                   | Some (trace, Some error) \<Rightarrow> Some \<lparr>settled = Rejected error, calls = trace\<rparr>
                   | Some (trace, None) \<Rightarrow>
                       if mainError \<noteq> Undefined
                       then Some \<lparr>settled = Rejected mainError, calls = trace\<rparr>
                       else Some \<lparr>settled = Fulfilled value, calls = trace\<rparr>))))"

section \<open>Callbacks of the test suite\<close>

text \<open>\<^verbatim>\<open>defer(async () => { calls.push(n); })\<close>\<close>

definition recorder :: "string \<Rightarrow> DeferredCallback" where
  "recorder n = DeferredCallback n (\<lambda>result. ([], Some (Fulfilled ()), result))"

text \<open>\<^verbatim>\<open>defer(async () => { calls.push(n); throw error; })\<close>\<close>

definition thrower :: "string \<Rightarrow> val \<Rightarrow> DeferredCallback" where
  "thrower n error = DeferredCallback n (\<lambda>result. ([], Some (Rejected error), result))"

text \<open>
  A callback that calls \<open>defer(late)\<close> while it runs and then completes as \<open>completes\<close>
  says.
\<close>

definition registrar :: "string \<Rightarrow> DeferredCallback \<Rightarrow> unit promise \<Rightarrow> DeferredCallback" where
  "registrar n late completes = DeferredCallback n (\<lambda>result. ([late], completes, result))"

text \<open>\<^verbatim>\<open>defer(async (r) => { r[0] = value; r[1] = error; })\<close>\<close>

definition writer :: "string \<Rightarrow> val \<Rightarrow> val \<Rightarrow> DeferredCallback" where
  "writer n value error = DeferredCallback n (\<lambda>result. ([], Some (Fulfilled ()), (value, error)))"

text \<open>
  A callback that passes itself to \<open>defer\<close> every time it runs: the loop of \<open>deferrable\<close> pops
  it, runs it and finds it on the stack again. (The one-element list is written with
  \<open>map\<close>, the form a corecursive call under a list takes; \<open>call_forever\<close> below gives it
  as \<open>[forever]\<close>.)
\<close>

primcorec forever :: DeferredCallback where
  "forever =
     DeferredCallback ''forever''
       (\<lambda>result. (map (\<lambda>_. forever) [()], Some (Fulfilled ()), result))"

section \<open>Reading a run\<close>

text \<open>
  An entry \<open>c\<close> of \<open>calls\<close> is one invocation \<open>exec(result)\<close>, with the content of the array
  at that moment. \<open>pushed c\<close> are the callbacks passed to \<open>defer\<close> while it ran,
  \<open>completion c\<close> is how the awaited call completed and \<open>written c\<close> is the content of the
  array afterwards.
\<close>

definition pushed :: "DeferredCallback \<times> Result \<Rightarrow> DeferredCallback list" where
  "pushed c = fst (call (fst c) (snd c))"

definition completion :: "DeferredCallback \<times> Result \<Rightarrow> unit promise" where
  "completion c = fst (snd (call (fst c) (snd c)))"

definition written :: "DeferredCallback \<times> Result \<Rightarrow> Result" where
  "written c = snd (snd (call (fst c) (snd c)))"

text \<open>
  The callbacks \<open>execs\<close>, invoked one after the other on an array that holds \<open>result\<close> at
  first: each paired with the content it is handed, which is what the one before it
  left. \<open>array_after\<close> is the content after the last of them.
\<close>

fun handed :: "Result \<Rightarrow> DeferredCallback list \<Rightarrow> (DeferredCallback \<times> Result) list" where
  "handed result [] = []"
| "handed result (exec # execs) = (exec, result) # handed (written (exec, result)) execs"

fun array_after :: "Result \<Rightarrow> DeferredCallback list \<Rightarrow> Result" where
  "array_after result [] = result"
| "array_after result (exec # execs) = array_after (written (exec, result)) execs"

text \<open>
  The invocations \<open>new\<close> were made one after the other on one array that held \<open>result\<close>
  before the first and holds \<open>final\<close> after the last.
\<close>

fun chained :: "Result \<Rightarrow> (DeferredCallback \<times> Result) list \<Rightarrow> Result \<Rightarrow> bool" where
  "chained result [] final \<longleftrightarrow> final = result"
| "chained result (c # cs) final \<longleftrightarrow> snd c = result \<and> chained (written c) cs final"

text \<open>
  The invariant of a loop that emptied the stack: \<open>new\<close>, the invocations it made, begins
  with the top of the stack, holds every callback that was on the stack, holds every
  callback pushed during one of its invocations later than that invocation, and the
  callback pushed last during an invocation is the very next one invoked, on the array
  as that invocation left it.
\<close>

definition drained ::
  "Result \<Rightarrow> DeferredCallback list \<Rightarrow> (DeferredCallback \<times> Result) list \<Rightarrow> bool" where
  "drained result stack new \<longleftrightarrow>
     (stack \<noteq> [] \<longrightarrow> new \<noteq> [] \<and> hd new = (last stack, result)) \<and>
     (\<forall>exec \<in> set stack. exec \<in> fst ` set new) \<and>
     (\<forall>i<length new.
        (\<forall>d \<in> set (pushed (new ! i)). d \<in> fst ` set (drop (Suc i) new)) \<and>
        (pushed (new ! i) \<noteq> [] \<longrightarrow>
           Suc i < length new \<and> new ! Suc i = (last (pushed (new ! i)), written (new ! i))))"

section \<open>The loops, one step at a time\<close>

lemmas run_simps =
  deferrable_second_def deferrable_first_def wrap_def ok_def failure_def defer_exec_def
  drain_second.simps drain_first.simps recorder_def thrower_def registrar_def writer_def
  Let_def

lemma foldl_defer_exec:
  "foldl (\<lambda>stack exec. defer_exec exec stack) stack execs = stack @ execs"
  by (induction execs arbitrary: stack) (simp_all add: defer_exec_def)

lemma wrap_Fulfilled: "wrap (Some (Fulfilled V)) = Some (Fulfilled (V, Undefined))"
  by (simp add: wrap_def ok_def)

lemma wrap_Rejected: "wrap (Some (Rejected E)) = Some (Fulfilled (Undefined, E))"
  by (simp add: wrap_def failure_def)

lemma wrap_cases:
  obtains "promise = None" "wrap promise = None"
  | V where "promise = Some (Fulfilled V)" "wrap promise = Some (Fulfilled (V, Undefined))"
  | E where "promise = Some (Rejected E)" "wrap promise = Some (Fulfilled (Undefined, E))"
proof (cases promise)
  case None
  then show ?thesis using that(1) by (simp add: wrap_def)
next
  case (Some s)
  then show ?thesis using that(2,3)
    by (cases s) (simp_all add: wrap_Fulfilled wrap_Rejected)
qed

lemma call_parts: "call exec result = (pushed (exec, result), completion (exec, result), written (exec, result))"
  by (simp add: pushed_def completion_def written_def)

lemma drain_second_Nil: "drain_second result [] trace = Some (trace, None)"
  by (subst drain_second.simps) simp

lemma drain_second_snoc:
  "drain_second result (stack @ [exec]) trace =
     (case completion (exec, result) of
        None \<Rightarrow> None
      | Some (Rejected error) \<Rightarrow> Some (trace @ [(exec, result)], Some error)
      | Some (Fulfilled u) \<Rightarrow>
          drain_second (written (exec, result)) (stack @ pushed (exec, result))
            (trace @ [(exec, result)]))"
  by (subst drain_second.simps)
     (simp add: foldl_defer_exec call_parts split: option.splits settled.splits)

lemma drain_first_Nil: "drain_first result [] trace = Some (trace, result)"
  by (subst drain_first.simps) simp

lemma drain_first_snoc:
  "drain_first result (stack @ [exec]) trace =
     (case completion (exec, result) of
        None \<Rightarrow> None
      | Some s \<Rightarrow>
          drain_first (written (exec, result)) (stack @ pushed (exec, result))
            (trace @ [(exec, result)]))"
  by (subst drain_first.simps)
     (simp add: foldl_defer_exec call_parts split: option.splits)

lemma deferrable_second_throws:
  "invoke fn = Throws thrown \<Longrightarrow>
   deferrable_second fn = Some \<lparr>settled = Rejected thrown, calls = []\<rparr>"
  by (simp add: deferrable_second_def)

lemma deferrable_first_throws:
  "invoke fn = Throws thrown \<Longrightarrow>
   deferrable_first fn = Some \<lparr>settled = Rejected thrown, calls = []\<rparr>"
  by (simp add: deferrable_first_def)

lemma deferrable_second_fulfilled:
  assumes "invoke fn = Returns promise"
    and "wrap promise = Some (Fulfilled (v, mainError))"
  shows "deferrable_second fn =
     (case drain_second (v, mainError) (defers fn) [] of
        None \<Rightarrow> None
      | Some (trace, Some error) \<Rightarrow> Some \<lparr>settled = Rejected error, calls = trace\<rparr>
      | Some (trace, None) \<Rightarrow>
          if mainError \<noteq> Undefined then Some \<lparr>settled = Rejected mainError, calls = trace\<rparr>
          else Some \<lparr>settled = Fulfilled v, calls = trace\<rparr>)"
  using assms by (simp add: deferrable_second_def foldl_defer_exec)

lemma deferrable_first_fulfilled:
  assumes "invoke fn = Returns promise"
    and "wrap promise = Some (Fulfilled result)"
  shows "deferrable_first fn =
     (case drain_first result (defers fn) [] of
        None \<Rightarrow> None
      | Some (trace, result') \<Rightarrow>
          if snd result' \<noteq> Undefined then Some \<lparr>settled = Rejected (snd result'), calls = trace\<rparr>
          else Some \<lparr>settled = Fulfilled (fst result'), calls = trace\<rparr>)"
  using assms
  by (simp add: deferrable_first_def foldl_defer_exec split: option.splits prod.splits)

section \<open>Draining callbacks that register nothing\<close>

text \<open>
  The data model of the specification has every registration happen while the main
  callback runs. Then the stack only shrinks, and the loops can be computed by induction
  on the drain order \<open>execs\<close>, the stack being \<open>rev execs\<close>.
\<close>

lemma handed_fst: "map fst (handed result execs) = execs"
  by (induction execs arbitrary: result) simp_all

lemma handed_length: "length (handed result execs) = length execs"
  by (induction execs arbitrary: result) simp_all

lemma handed_unwritten:
  "\<forall>c \<in> set (handed result execs). written c = snd c \<Longrightarrow>
   handed result execs = map (\<lambda>exec. (exec, result)) execs"
  by (induction execs arbitrary: result) simp_all

lemma handed_hd: "execs \<noteq> [] \<Longrightarrow> snd (hd (handed result execs)) = result"
  by (cases execs) simp_all

lemma drain_second_fulfilled:
  "\<forall>c \<in> set (handed result execs). pushed c = [] \<and> completion c = Some (Fulfilled ()) \<Longrightarrow>
   drain_second result (lower @ rev execs) trace =
   drain_second (array_after result execs) lower (trace @ handed result execs)"
proof (induction execs arbitrary: result trace)
  case Nil
  then show ?case by simp
next
  case (Cons exec execs)
  have "drain_second result ((lower @ rev execs) @ [exec]) trace =
        drain_second (written (exec, result)) (lower @ rev execs) (trace @ [(exec, result)])"
    using Cons.prems drain_second_snoc [of result "lower @ rev execs" exec trace] by simp
  then show ?case using Cons by simp
qed

lemma drain_second_all_fulfilled:
  assumes "\<forall>c \<in> set (handed result (rev stack)).
             pushed c = [] \<and> completion c = Some (Fulfilled ())"
  shows "drain_second result stack [] = Some (handed result (rev stack), None)"
  using drain_second_fulfilled [OF assms, of "[]" "[]"] by (simp add: drain_second_Nil)

lemma drain_first_settled:
  "\<forall>c \<in> set (handed result execs). pushed c = [] \<and> completion c \<noteq> None \<Longrightarrow>
   drain_first result (lower @ rev execs) trace =
   drain_first (array_after result execs) lower (trace @ handed result execs)"
proof (induction execs arbitrary: result trace)
  case Nil
  then show ?case by simp
next
  case (Cons exec execs)
  have "drain_first result ((lower @ rev execs) @ [exec]) trace =
        drain_first (written (exec, result)) (lower @ rev execs) (trace @ [(exec, result)])"
    using Cons.prems drain_first_snoc [of result "lower @ rev execs" exec trace]
    by (auto split: option.splits)
  then show ?case using Cons by simp
qed

lemma drain_first_all_settled:
  assumes "\<forall>c \<in> set (handed result (rev stack)). pushed c = [] \<and> completion c \<noteq> None"
  shows "drain_first result stack [] =
           Some (handed result (rev stack), array_after result (rev stack))"
  using drain_first_settled [OF assms, of "[]" "[]"] by (simp add: drain_first_Nil)

text \<open>
  The callback at position \<open>K\<close> of the drain order (position 0 is the callback registered
  last) fails and the ones before it succeed: the loop ends there.
\<close>

lemma drain_second_fail_at_order:
  "K < length execs \<Longrightarrow>
   \<forall>i<K. pushed (handed result execs ! i) = [] \<and>
          completion (handed result execs ! i) = Some (Fulfilled ()) \<Longrightarrow>
   completion (handed result execs ! K) = Some (Rejected D) \<Longrightarrow>
   drain_second result (lower @ rev execs) trace =
     Some (trace @ take (Suc K) (handed result execs), Some D)"
proof (induction execs arbitrary: K result trace)
  case Nil
  then show ?case by simp
next
  case (Cons exec execs)
  show ?case
  proof (cases K)
    case 0
    with Cons.prems(3) have "completion (exec, result) = Some (Rejected D)" by simp
    then have "drain_second result ((lower @ rev execs) @ [exec]) trace =
               Some (trace @ [(exec, result)], Some D)"
      using drain_second_snoc [of result "lower @ rev execs" exec trace] by simp
    then show ?thesis using 0 by simp
  next
    case (Suc k)
    from Cons.prems(2) Suc have top: "pushed (exec, result) = []"
      "completion (exec, result) = Some (Fulfilled ())"
      by auto
    have step: "drain_second result ((lower @ rev execs) @ [exec]) trace =
          drain_second (written (exec, result)) (lower @ rev execs) (trace @ [(exec, result)])"
      using top drain_second_snoc [of result "lower @ rev execs" exec trace] by simp
    have k: "k < length execs" using Cons.prems(1) Suc by simp
    have before: "\<forall>i<k. pushed (handed (written (exec, result)) execs ! i) = [] \<and>
          completion (handed (written (exec, result)) execs ! i) = Some (Fulfilled ())"
    proof (intro allI impI)
      fix i assume "i < k"
      then have "Suc i < K" using Suc by simp
      with Cons.prems(2) show "pushed (handed (written (exec, result)) execs ! i) = [] \<and>
          completion (handed (written (exec, result)) execs ! i) = Some (Fulfilled ())"
        by fastforce
    qed
    have failing: "completion (handed (written (exec, result)) execs ! k) = Some (Rejected D)"
      using Cons.prems(3) Suc by simp
    from Cons.IH [OF k before failing, of "trace @ [(exec, result)]"] step
    show ?thesis using Suc by simp
  qed
qed

lemma drain_second_fail_at:
  assumes "K < length stack"
    and "\<forall>i<K. pushed (handed result (rev stack) ! i) = [] \<and>
               completion (handed result (rev stack) ! i) = Some (Fulfilled ())"
    and "completion (handed result (rev stack) ! K) = Some (Rejected D)"
  shows "drain_second result stack [] = Some (take (Suc K) (handed result (rev stack)), Some D)"
  using drain_second_fail_at_order [of K "rev stack" result D "[]" "[]"] assms by simp

text \<open>
  Callbacks that register nothing and settle: the loop ends, after invoking an initial
  piece of the drain order.
\<close>

lemma drain_second_quiet_order:
  "\<forall>c \<in> set (handed result execs). pushed c = [] \<and> completion c \<noteq> None \<Longrightarrow>
   \<exists>n err. drain_second result (rev execs) trace =
     Some (trace @ take n (handed result execs), err)"
proof (induction execs arbitrary: result trace)
  case Nil
  then show ?case by (simp add: drain_second_Nil)
next
  case (Cons exec execs)
  from Cons.prems obtain s where c: "pushed (exec, result) = []" "completion (exec, result) = Some s"
    by auto
  show ?case
  proof (cases s)
    case (Rejected error)
    have "drain_second result (rev (exec # execs)) trace =
          Some (trace @ take 1 (handed result (exec # execs)), Some error)"
      using c Rejected drain_second_snoc [of result "rev execs" exec trace] by simp
    then show ?thesis by blast
  next
    case (Fulfilled u)
    from Cons.prems
    have "\<forall>c \<in> set (handed (written (exec, result)) execs). pushed c = [] \<and> completion c \<noteq> None"
      by simp
    from Cons.IH [OF this, of "trace @ [(exec, result)]"] obtain n err where
      "drain_second (written (exec, result)) (rev execs) (trace @ [(exec, result)]) =
         Some ((trace @ [(exec, result)]) @ take n (handed (written (exec, result)) execs), err)"
      by blast
    then have "drain_second result (rev (exec # execs)) trace =
          Some (trace @ take (Suc n) (handed result (exec # execs)), err)"
      using c Fulfilled drain_second_snoc [of result "rev execs" exec trace] by simp
    then show ?thesis by blast
  qed
qed

lemma drain_second_quiet:
  assumes "\<forall>c \<in> set (handed result (rev stack)). pushed c = [] \<and> completion c \<noteq> None"
  shows "\<exists>n err. drain_second result stack [] = Some (take n (handed result (rev stack)), err)"
  using drain_second_quiet_order [OF assms, of "[]"] by simp

section \<open>What every loop that ends has done\<close>

text \<open>
  These hold for every run, also when callbacks register further callbacks or write to
  the result array while the stack is drained. They are proved by the fixpoint induction
  of the loop.
\<close>

lemma in_set_last_or_butlast: "x \<in> set xs \<Longrightarrow> x = last xs \<or> x \<in> set (butlast xs)"
  by (cases xs rule: rev_cases) auto

lemma chained_unwritten:
  "chained result new final \<Longrightarrow> \<forall>c \<in> set new. written c = snd c \<Longrightarrow>
   (\<forall>c \<in> set new. snd c = result) \<and> final = result"
  by (induction new arbitrary: result) auto



text \<open>
  The second loop hands the one array from callback to callback; when it ends normally
  every invocation succeeded, and when it ends with an error the last invocation failed
  with that error and all before it succeeded.
\<close>

lemma drain_second_trace:
  assumes "drain_second result stack trace = Some y"
  shows "\<exists>new final. fst y = trace @ new \<and> chained result new final \<and>
           (case snd y of
              None \<Rightarrow> \<forall>c \<in> set new. completion c = Some (Fulfilled ())
            | Some D \<Rightarrow> new \<noteq> [] \<and> completion (last new) = Some (Rejected D) \<and>
                (\<forall>c \<in> set (butlast new). completion c = Some (Fulfilled ())))"
  using assms
proof (induction rule: drain_second.raw_induct [rotated 1, consumes 1])
  case (1 drain result stack trace y)
  show ?case
  proof (cases "stack = []")
    case True
    with 1(2) have "y = (trace, None)" by simp
    then have "fst y = trace @ [] \<and> chained result [] result \<and>
           (case snd y of
              None \<Rightarrow> \<forall>c \<in> set []. completion c = Some (Fulfilled ())
            | Some D \<Rightarrow> [] \<noteq> [] \<and> completion (last []) = Some (Rejected D) \<and>
                (\<forall>c \<in> set (butlast []). completion c = Some (Fulfilled ())))"
      by simp
    then show ?thesis by blast
  next
    case False
    let ?c = "(last stack, result)"
    have c: "call (last stack) result = (pushed ?c, completion ?c, written ?c)"
      by (rule call_parts)
    show ?thesis
    proof (cases "completion ?c")
      case None
      with 1(2) False c show ?thesis by simp
    next
      case (Some s)
      show ?thesis
      proof (cases s)
        case (Rejected error)
        with 1(2) False c Some have y: "y = (trace @ [?c], Some error)"
          by simp
        have "fst y = trace @ [?c] \<and> chained result [?c] (written ?c) \<and>
           (case snd y of
              None \<Rightarrow> \<forall>c \<in> set [?c]. completion c = Some (Fulfilled ())
            | Some D \<Rightarrow> [?c] \<noteq> [] \<and> completion (last [?c]) = Some (Rejected D) \<and>
                (\<forall>c \<in> set (butlast [?c]). completion c = Some (Fulfilled ())))"
          using y Some Rejected by simp
        then show ?thesis by blast
      next
        case (Fulfilled u)
        with 1(2) False c Some
        have "drain (written ?c) (butlast stack @ pushed ?c) (trace @ [?c]) = Some y"
          by (simp add: foldl_defer_exec Let_def)
        from 1(1) [OF this] obtain new final where
          n: "fst y = (trace @ [?c]) @ new"
             "chained (written ?c) new final"
             "case snd y of
                None \<Rightarrow> \<forall>c \<in> set new. completion c = Some (Fulfilled ())
              | Some D \<Rightarrow> new \<noteq> [] \<and> completion (last new) = Some (Rejected D) \<and>
                  (\<forall>c \<in> set (butlast new). completion c = Some (Fulfilled ()))"
          by blast
        let ?new = "?c # new"
        have "fst y = trace @ ?new" using n(1) by simp
        moreover have "chained result ?new final" using n(2) by simp
        moreover have "case snd y of
                None \<Rightarrow> \<forall>c \<in> set ?new. completion c = Some (Fulfilled ())
              | Some D \<Rightarrow> ?new \<noteq> [] \<and> completion (last ?new) = Some (Rejected D) \<and>
                  (\<forall>c \<in> set (butlast ?new). completion c = Some (Fulfilled ()))"
          using n(3) Some Fulfilled by (auto split: option.splits)
        ultimately show ?thesis by blast
      qed
    qed
  qed
qed

lemma drained_Nil: "drained result [] []"
  by (simp add: drained_def)

lemma drained_step:
  assumes "stack \<noteq> []"
    and "drained (written (last stack, result))
           (butlast stack @ pushed (last stack, result)) new"
  shows "drained result stack ((last stack, result) # new)"
proof -
  let ?c = "(last stack, result)"
  let ?rest = "butlast stack @ pushed ?c"
  have hd: "?rest \<noteq> [] \<longrightarrow> new \<noteq> [] \<and> hd new = (last ?rest, written ?c)"
    and all: "\<forall>exec \<in> set ?rest. exec \<in> fst ` set new"
    and ix: "\<forall>i<length new.
        (\<forall>d \<in> set (pushed (new ! i)). d \<in> fst ` set (drop (Suc i) new)) \<and>
        (pushed (new ! i) \<noteq> [] \<longrightarrow>
           Suc i < length new \<and> new ! Suc i = (last (pushed (new ! i)), written (new ! i)))"
    using assms(2) by (simp_all add: drained_def)
  have a: "\<forall>exec \<in> set stack. exec \<in> fst ` set (?c # new)"
  proof
    fix exec assume "exec \<in> set stack"
    from in_set_last_or_butlast [OF this]
    show "exec \<in> fst ` set (?c # new)" using all by auto
  qed
  have b: "(\<forall>d \<in> set (pushed ((?c # new) ! i)). d \<in> fst ` set (drop (Suc i) (?c # new))) \<and>
        (pushed ((?c # new) ! i) \<noteq> [] \<longrightarrow>
           Suc i < length (?c # new) \<and>
           (?c # new) ! Suc i = (last (pushed ((?c # new) ! i)), written ((?c # new) ! i)))"
    if "i < length (?c # new)" for i
  proof (cases i)
    case 0
    have "pushed ?c \<noteq> [] \<Longrightarrow> new \<noteq> [] \<and> hd new = (last (pushed ?c), written ?c)"
      using hd by simp
    then have "pushed ?c \<noteq> [] \<Longrightarrow> 0 < length new \<and> new ! 0 = (last (pushed ?c), written ?c)"
      by (cases new) auto
    then show ?thesis using 0 all by auto
  next
    case (Suc j)
    then have "j < length new" using that by simp
    with ix show ?thesis using Suc by simp
  qed
  show ?thesis unfolding drained_def using a b by simp
qed

lemma drain_first_drained:
  assumes "drain_first result stack trace = Some y"
  shows "\<exists>new. fst y = trace @ new \<and> chained result new (snd y) \<and>
           (\<forall>c \<in> set new. completion c \<noteq> None) \<and> drained result stack new"
  using assms
proof (induction rule: drain_first.raw_induct [rotated 1, consumes 1])
  case (1 drain result stack trace y)
  show ?case
  proof (cases "stack = []")
    case True
    with 1(2) have "y = (trace, result)" by simp
    then have "fst y = trace @ [] \<and> chained result [] (snd y) \<and>
           (\<forall>c \<in> set []. completion c \<noteq> None) \<and> drained result stack []"
      using True by (simp add: drained_Nil)
    then show ?thesis by blast
  next
    case False
    let ?c = "(last stack, result)"
    have c: "call (last stack) result = (pushed ?c, completion ?c, written ?c)"
      by (rule call_parts)
    show ?thesis
    proof (cases "completion ?c")
      case None
      with 1(2) False c show ?thesis by simp
    next
      case (Some s)
      with 1(2) False c
      have "drain (written ?c) (butlast stack @ pushed ?c) (trace @ [?c]) = Some y"
        by (simp add: foldl_defer_exec Let_def)
      from 1(1) [OF this] obtain new where
        n: "fst y = (trace @ [?c]) @ new"
           "chained (written ?c) new (snd y)"
           "\<forall>c \<in> set new. completion c \<noteq> None"
           "drained (written ?c) (butlast stack @ pushed ?c) new"
        by blast
      from drained_step [OF False n(4)]
      have "drained result stack (?c # new)" .
      moreover have "fst y = trace @ (?c # new)" using n(1) by simp
      moreover have "chained result (?c # new) (snd y)" using n(2) by simp
      moreover have "\<forall>c \<in> set (?c # new). completion c \<noteq> None"
        using n(3) Some by auto
      ultimately show ?thesis by blast
    qed
  qed
qed

lemma drain_second_drained:
  assumes "drain_second result stack trace = Some (trace', None)"
  shows "\<exists>new. trace' = trace @ new \<and> drained result stack new"
proof -
  have "snd y = None \<longrightarrow> (\<exists>new. fst y = trace @ new \<and> drained result stack new)"
    if "drain_second result stack trace = Some y" for y
    using that
  proof (induction rule: drain_second.raw_induct [rotated 1, consumes 1])
    case (1 drain result stack trace y)
    show ?case
    proof (cases "stack = []")
      case True
      with 1(2) have "y = (trace, None)" by simp
      then show ?thesis using True by (simp add: drained_Nil)
    next
      case False
      let ?c = "(last stack, result)"
      have c: "call (last stack) result = (pushed ?c, completion ?c, written ?c)"
        by (rule call_parts)
      show ?thesis
      proof (cases "completion ?c")
        case None
        with 1(2) False c show ?thesis by simp
      next
        case (Some s)
        show ?thesis
        proof (cases s)
          case (Rejected error)
          with 1(2) False c Some have "snd y = Some error" by auto
          then show ?thesis by simp
        next
          case (Fulfilled u)
          with 1(2) False c Some
          have "drain (written ?c) (butlast stack @ pushed ?c) (trace @ [?c]) = Some y"
            by (simp add: foldl_defer_exec Let_def)
          from 1(1) [OF this]
          have ih: "snd y = None \<longrightarrow>
            (\<exists>new. fst y = (trace @ [?c]) @ new \<and>
               drained (written ?c) (butlast stack @ pushed ?c) new)" .
          show ?thesis
          proof
            assume "snd y = None"
            with ih obtain new where
              n: "fst y = (trace @ [?c]) @ new"
                 "drained (written ?c) (butlast stack @ pushed ?c) new"
              by blast
            from drained_step [OF False n(2)] n(1)
            show "\<exists>new. fst y = trace @ new \<and> drained result stack new"
              by auto
          qed
        qed
      qed
    qed
  qed
  from this [OF assms] show ?thesis by simp
qed

text \<open>A run that settled, taken apart: the captured result, the loop, the final test.\<close>

lemma deferrable_second_run:
  assumes "deferrable_second fn = Some run"
  obtains (throws) thrown where
    "invoke fn = Throws thrown" "settled run = Rejected thrown" "calls run = []"
  | (returns) promise v mainError err where
    "invoke fn = Returns promise"
    "wrap promise = Some (Fulfilled (v, mainError))"
    "drain_second (v, mainError) (defers fn) [] = Some (calls run, err)"
    "settled run = (case err of Some error \<Rightarrow> Rejected error
                    | None \<Rightarrow> if mainError \<noteq> Undefined then Rejected mainError else Fulfilled v)"
proof (cases "invoke fn")
  case (Throws thrown)
  with assms throws [OF Throws] show ?thesis
    by (auto simp: deferrable_second_throws)
next
  case (Returns promise)
  show ?thesis
  proof (cases promise rule: wrap_cases)
    case 1
    then show ?thesis using assms Returns by (simp add: deferrable_second_def)
  next
    case (2 V)
    from assms show ?thesis
      unfolding deferrable_second_fulfilled [OF Returns 2(2)]
      using returns [OF Returns 2(2)]
      by (auto split: option.splits prod.splits if_splits)
  next
    case (3 E)
    from assms show ?thesis
      unfolding deferrable_second_fulfilled [OF Returns 3(2)]
      using returns [OF Returns 3(2)]
      by (auto split: option.splits prod.splits if_splits)
  qed
qed

lemma deferrable_first_run:
  assumes "deferrable_first fn = Some run"
  obtains (throws) thrown where
    "invoke fn = Throws thrown" "settled run = Rejected thrown" "calls run = []"
  | (returns) promise result final where
    "invoke fn = Returns promise"
    "wrap promise = Some (Fulfilled result)"
    "drain_first result (defers fn) [] = Some (calls run, final)"
    "settled run = (if snd final \<noteq> Undefined then Rejected (snd final) else Fulfilled (fst final))"
proof (cases "invoke fn")
  case (Throws thrown)
  with assms throws [OF Throws] show ?thesis
    by (auto simp: deferrable_first_throws)
next
  case (Returns promise)
  show ?thesis
  proof (cases promise rule: wrap_cases)
    case 1
    then show ?thesis using assms Returns by (simp add: deferrable_first_def)
  next
    case (2 V)
    from assms show ?thesis
      unfolding deferrable_first_fulfilled [OF Returns 2(2)]
      using returns [OF Returns 2(2)]
      by (auto split: option.splits prod.splits if_splits)
  next
    case (3 E)
    from assms show ?thesis
      unfolding deferrable_first_fulfilled [OF Returns 3(2)]
      using returns [OF Returns 3(2)]
      by (auto split: option.splits prod.splits if_splits)
  qed
qed

text \<open>
  The loop has no bound of its own: with a callback that registers itself again on
  every invocation the stack never empties and the promise of \<open>deferrable\<close> never settles.
\<close>

lemma call_forever: "call forever result = ([forever], Some (Fulfilled ()), result)"
  by (subst forever.code) simp

lemma drain_second_forever:
  assumes "drain_second result stack trace = Some y"
  shows "stack = [] \<or> last stack \<noteq> forever"
  using assms
proof (induction rule: drain_second.raw_induct [rotated 1, consumes 1])
  case (1 drain result stack trace y)
  show ?case
  proof (rule ccontr)
    assume "\<not> (stack = [] \<or> last stack \<noteq> forever)"
    then have s: "stack \<noteq> []" "last stack = forever" by simp_all
    with 1(2) have "drain result (butlast stack @ [forever]) (trace @ [(forever, result)]) = Some y"
      by (simp add: call_forever foldl_defer_exec)
    from 1(1) [OF this] show False by simp
  qed
qed

lemma self_registering_never_settles:
  "deferrable_second \<lparr>defers = [forever], invoke = Returns (Some (Fulfilled V))\<rparr> = None"
proof -
  have "drain_second (V, Undefined) [forever] [] = None"
    using drain_second_forever [of "(V, Undefined)" "[forever]" "[]"]
    by (cases "drain_second (V, Undefined) [forever] []") auto
  then show ?thesis
    by (simp add: deferrable_second_fulfilled [of _ "Some (Fulfilled V)" V Undefined] wrap_Fulfilled)
qed

text \<open>
  Two behaviours of the code that the specification does not speak of. A main callback
  that throws before it has returned a promise: the run rejects with what was thrown and
  the callbacks it had registered are never invoked, in both variants. A callback that
  writes to the result array: the first variant, which reads the array after the loop,
  resolves although the main callback failed, and the second hands the changed array to
  the callbacks drained later.
\<close>

lemma synchronous_throw_skips_draining:
  "deferrable_second \<lparr>defers = execs, invoke = Throws E\<rparr> =
     Some \<lparr>settled = Rejected E, calls = []\<rparr> \<and>
   deferrable_first \<lparr>defers = execs, invoke = Throws E\<rparr> =
     Some \<lparr>settled = Rejected E, calls = []\<rparr>"
  by (simp add: deferrable_second_def deferrable_first_def)

lemma first_variant_reads_written_array:
  "deferrable_first
     \<lparr>defers = [writer ''rescue'' (Str ''rescued'') Undefined],
      invoke = Returns (Some (Rejected (Error ''main failed'')))\<rparr> =
   Some \<lparr>settled = Fulfilled (Str ''rescued''),
         calls = [(writer ''rescue'' (Str ''rescued'') Undefined,
                   (Undefined, Error ''main failed''))]\<rparr>"
  by (simp add: run_simps)

section \<open>The second variant surfaces errors, the first swallows those of callbacks\<close>

lemma second_deferred_error_surfaces:
  assumes "deferrable_second fn = Some run"
    and "c \<in> set (calls run)"
    and "completion c = Some (Rejected D)"
  shows "settled run = Rejected D"
  using assms(1)
proof (cases rule: deferrable_second_run)
  case (throws thrown)
  with assms(2) show ?thesis by simp
next
  case (returns promise v mainError err)
  from drain_second_trace [OF returns(3)] have
    e: "case err of
          None \<Rightarrow> \<forall>c \<in> set (calls run). completion c = Some (Fulfilled ())
        | Some D \<Rightarrow> calls run \<noteq> [] \<and> completion (last (calls run)) = Some (Rejected D) \<and>
            (\<forall>c \<in> set (butlast (calls run)). completion c = Some (Fulfilled ()))"
    by simp
  show ?thesis
  proof (cases err)
    case None
    with e assms(2,3) show ?thesis by auto
  next
    case (Some D')
    with e have l: "completion (last (calls run)) = Some (Rejected D')"
      and b: "\<forall>c \<in> set (butlast (calls run)). completion c = Some (Fulfilled ())"
      by simp_all
    from in_set_last_or_butlast [OF assms(2)] b assms(3) have "c = last (calls run)" by auto
    with l assms(3) have "D' = D" by simp
    with returns(4) Some show ?thesis by simp
  qed
qed

lemma second_fulfilled_only_without_error:
  assumes "deferrable_second fn = Some run"
    and "settled run = Fulfilled V"
  shows "(\<forall>c \<in> set (calls run). completion c = Some (Fulfilled ())) \<and>
         (invoke fn = Returns (Some (Fulfilled V)) \<or>
          invoke fn = Returns (Some (Rejected Undefined)) \<and> V = Undefined)"
  using assms(1)
proof (cases rule: deferrable_second_run)
  case (throws thrown)
  with assms(2) show ?thesis by simp
next
  case (returns promise v mainError err)
  from returns(4) assms(2) have err: "err = None" and m: "mainError = Undefined" and v: "v = V"
    by (auto split: option.splits if_splits)
  from drain_second_trace [OF returns(3)] err
  have "\<forall>c \<in> set (calls run). completion c = Some (Fulfilled ())"
    by simp
  moreover
  have "promise = Some (Fulfilled V) \<or> promise = Some (Rejected Undefined) \<and> V = Undefined"
    using returns(2) m v by (cases promise rule: wrap_cases) auto
  ultimately show ?thesis using returns(1) by simp
qed

lemma second_main_error_surfaces:
  assumes "deferrable_second fn = Some run"
    and "invoke fn = Returns (Some (Rejected E))"
    and "E \<noteq> Undefined"
  shows "(\<exists>error. settled run = Rejected error) \<and>
         ((\<forall>c \<in> set (calls run). completion c = Some (Fulfilled ())) \<longrightarrow> settled run = Rejected E)"
  using assms(1)
proof (cases rule: deferrable_second_run)
  case (throws thrown)
  with assms(2) show ?thesis by simp
next
  case (returns promise v mainError err)
  from returns(1,2) assms(2) have m: "mainError = E" by (auto simp: wrap_Rejected)
  show ?thesis
  proof (cases err)
    case None
    with returns(4) m assms(3) show ?thesis by simp
  next
    case (Some D)
    with drain_second_trace [OF returns(3)] have
      "calls run \<noteq> []" "completion (last (calls run)) = Some (Rejected D)"
      by simp_all
    then have "\<exists>c \<in> set (calls run). completion c \<noteq> Some (Fulfilled ())"
      by (intro bexI [of _ "last (calls run)"]) simp_all
    with returns(4) Some show ?thesis by auto
  qed
qed

lemma first_unwritten_outcome:
  assumes "deferrable_first fn = Some run"
    and "\<forall>c \<in> set (calls run). written c = snd c"
  shows "(\<forall>V. invoke fn = Returns (Some (Fulfilled V)) \<longrightarrow> settled run = Fulfilled V) \<and>
         (\<forall>E. invoke fn = Returns (Some (Rejected E)) \<and> E \<noteq> Undefined \<longrightarrow>
            settled run = Rejected E)"
  using assms(1)
proof (cases rule: deferrable_first_run)
  case (throws thrown)
  then show ?thesis by simp
next
  case (returns promise result final)
  from drain_first_drained [OF returns(3)] have "chained result (calls run) final"
    by simp
  from chained_unwritten [OF this assms(2)] have "final = result" by simp
  with returns(1,2,4) show ?thesis
    by (auto simp: wrap_Fulfilled wrap_Rejected)
qed

lemma second_settles:
  assumes "invoke fn \<noteq> Returns None"
    and "\<forall>exec \<in> set (defers fn). \<forall>result.
           pushed (exec, result) = [] \<and> completion (exec, result) \<noteq> None"
  shows "deferrable_second fn \<noteq> None"
proof (cases "invoke fn")
  case (Throws thrown)
  then show ?thesis by (simp add: deferrable_second_throws)
next
  case (Returns promise)
  with assms(1) obtain v mainError where w: "wrap promise = Some (Fulfilled (v, mainError))"
    by (cases promise rule: wrap_cases) auto
  have "\<forall>c \<in> set (handed (v, mainError) (rev (defers fn))).
          pushed c = [] \<and> completion c \<noteq> None"
  proof
    fix c assume c: "c \<in> set (handed (v, mainError) (rev (defers fn)))"
    then have "fst c \<in> set (map fst (handed (v, mainError) (rev (defers fn))))"
      by simp
    then have "fst c \<in> set (defers fn)" by (simp add: handed_fst)
    with assms(2) have "pushed (fst c, snd c) = [] \<and> completion (fst c, snd c) \<noteq> None"
      by blast
    then show "pushed c = [] \<and> completion c \<noteq> None" by simp
  qed
  from drain_second_quiet [OF this] obtain n err where
    "drain_second (v, mainError) (defers fn) [] =
       Some (take n (handed (v, mainError) (rev (defers fn))), err)"
    by blast
  then show ?thesis
    by (cases err) (simp_all add: deferrable_second_fulfilled [OF Returns w])
qed

section \<open>The claims\<close>

text \<open>
  In the theorems about the drain order, position 0 is the callback registered last: the
  drain order of a run is \<open>rev (defers fn)\<close>, and \<open>handed result (rev (defers fn))\<close> pairs
  each callback with the content of the result array it is handed when the callbacks
  before it have run. A registered callback "succeeds" when its invocation \<open>c\<close> there has
  \<open>pushed c = []\<close> and \<open>completion c = Some (Fulfilled ())\<close>: it registers nothing further
  and completes normally. A callback "does not write" when \<open>written c = snd c\<close>. "The main
  callback resolves, or rejects" is \<open>invoke fn = Returns (Some \<dots>)\<close>: it has returned a
  promise and that promise has settled.
\<close>

lemma handed_take: "take n (handed result execs) = handed result (take n execs)"
proof (induction execs arbitrary: n result)
  case Nil
  then show ?case by simp
next
  case (Cons exec execs)
  then show ?case by (cases n) simp_all
qed

lemma take_handed_fst: "map fst (take n (handed result execs)) = take n execs"
  by (simp add: handed_take handed_fst)

lemma take_handed_unwritten:
  assumes "\<forall>c \<in> set (take n (handed result execs)). written c = snd c"
  shows "take n (handed result execs) = map (\<lambda>exec. (exec, result)) (take n execs)"
proof -
  from assms have "\<forall>c \<in> set (handed result (take n execs)). written c = snd c"
    by (simp only: handed_take)
  from handed_unwritten [OF this] show ?thesis
    by (simp only: handed_take)
qed


text \<open>
  C1. When the main callback fails with \<open>E\<close> and a drained callback fails with \<open>D\<close>, the
  run is claimed to fail with one aggregate error whose causes are \<open>E\<close>, then \<open>D\<close>; the test
  "throws an AggregateError containing both" of the repository expects the same. The code
  has no aggregate: on the input of that test the second variant rethrows the error of
  the callback alone, \<open>Rejected (Error ''defer failed'')\<close>, where the claim has
  \<open>Rejected (AggregateError [Error ''main failed'', Error ''defer failed''])\<close>; the first
  variant swallows the error of the callback and fails with \<open>Error ''main failed''\<close> alone.
\<close>

theorem both_fail_deferred_error_alone:
  "deferrable_second
     \<lparr>defers = [thrower ''cleanup'' (Error ''defer failed'')],
      invoke = Returns (Some (Rejected (Error ''main failed'')))\<rparr> =
   Some \<lparr>settled = Rejected (Error ''defer failed''),
         calls = [(thrower ''cleanup'' (Error ''defer failed''),
                   (Undefined, Error ''main failed''))]\<rparr> \<and>
   map_option settled
     (deferrable_second
        \<lparr>defers = [thrower ''cleanup'' (Error ''defer failed'')],
         invoke = Returns (Some (Rejected (Error ''main failed'')))\<rparr>) \<noteq>
   Some (Rejected (AggregateError [Error ''main failed'', Error ''defer failed''])) \<and>
   deferrable_first
     \<lparr>defers = [thrower ''cleanup'' (Error ''defer failed'')],
      invoke = Returns (Some (Rejected (Error ''main failed'')))\<rparr> =
   Some \<lparr>settled = Rejected (Error ''main failed''),
         calls = [(thrower ''cleanup'' (Error ''defer failed''),
                   (Undefined, Error ''main failed''))]\<rparr>"
  by (simp add: run_simps)


text \<open>
  C2, as claimed: no error is ever swallowed. The first variant swallows the error of a
  deferred callback (its \<open>catch\<close> is empty): on the input of the test "swallows errors thrown
  by deferred callbacks" the run resolves with \<open>ok\<close> although a callback threw.
\<close>

theorem swallowed_error_counterexample:
  "deferrable_first
     \<lparr>defers = [thrower ''before-throw'' (Error ''ignored''), recorder ''after-throw''],
      invoke = Returns (Some (Fulfilled (Str ''ok'')))\<rparr> =
   Some \<lparr>settled = Fulfilled (Str ''ok''),
         calls = [(recorder ''after-throw'', (Str ''ok'', Undefined)),
                  (thrower ''before-throw'' (Error ''ignored''), (Str ''ok'', Undefined))]\<rparr>"
  by (simp add: run_simps)

text \<open>
  C2, amended. For every run of the second variant that settles: if an invoked callback
  failed, the run fails, and with exactly the error of that callback when the main
  callback had resolved; if the main callback rejected with an error \<open>E\<close> other than
  \<open>undefined\<close> the run fails, and with exactly \<open>E\<close> when every invoked callback succeeded; if
  the main callback threw before returning a promise the run fails with what it threw;
  and the run resolves with a value only if every invoked callback succeeded and the main
  callback resolved with that value (or rejected with \<open>undefined\<close>, which the final test
  cannot tell from success). With what error the run fails when both the main callback
  and a deferred callback failed is the matter of C1 and is left open here. The first
  variant swallows the errors of deferred callbacks: whatever the callbacks' completions,
  its run settles as the main callback did, as long as no callback wrote to the result
  array. A run of the second variant settles whenever the main callback settles and the
  registered callbacks settle and register nothing.
\<close>

theorem errors_surface:
  "(deferrable_second fn = Some run \<longrightarrow>
      (\<forall>c \<in> set (calls run). \<forall>D. completion c = Some (Rejected D) \<longrightarrow>
         (\<exists>error. settled run = Rejected error) \<and>
         (\<forall>V. invoke fn = Returns (Some (Fulfilled V)) \<longrightarrow> settled run = Rejected D)) \<and>
      (\<forall>E. invoke fn = Returns (Some (Rejected E)) \<and> E \<noteq> Undefined \<longrightarrow>
         (\<exists>error. settled run = Rejected error) \<and>
         ((\<forall>c \<in> set (calls run). completion c = Some (Fulfilled ())) \<longrightarrow>
            settled run = Rejected E)) \<and>
      (\<forall>E. invoke fn = Throws E \<longrightarrow> settled run = Rejected E) \<and>
      (\<forall>V. settled run = Fulfilled V \<longrightarrow>
         (\<forall>c \<in> set (calls run). completion c = Some (Fulfilled ())) \<and>
         (invoke fn = Returns (Some (Fulfilled V)) \<or>
          invoke fn = Returns (Some (Rejected Undefined)) \<and> V = Undefined))) \<and>
   (deferrable_first fn = Some run \<and> (\<forall>c \<in> set (calls run). written c = snd c) \<longrightarrow>
      (\<forall>V. invoke fn = Returns (Some (Fulfilled V)) \<longrightarrow> settled run = Fulfilled V) \<and>
      (\<forall>E. invoke fn = Returns (Some (Rejected E)) \<and> E \<noteq> Undefined \<longrightarrow>
         settled run = Rejected E)) \<and>
   (invoke fn \<noteq> Returns None \<and>
    (\<forall>exec \<in> set (defers fn). \<forall>result.
        pushed (exec, result) = [] \<and> completion (exec, result) \<noteq> None) \<longrightarrow>
      deferrable_second fn \<noteq> None)"
proof (intro conjI impI)
  assume "deferrable_second fn = Some run"
  then show "\<forall>c \<in> set (calls run). \<forall>D. completion c = Some (Rejected D) \<longrightarrow>
         (\<exists>error. settled run = Rejected error) \<and>
         (\<forall>V. invoke fn = Returns (Some (Fulfilled V)) \<longrightarrow> settled run = Rejected D)"
    using second_deferred_error_surfaces [of fn run] by blast
next
  assume "deferrable_second fn = Some run"
  then show "\<forall>E. invoke fn = Returns (Some (Rejected E)) \<and> E \<noteq> Undefined \<longrightarrow>
         (\<exists>error. settled run = Rejected error) \<and>
         ((\<forall>c \<in> set (calls run). completion c = Some (Fulfilled ())) \<longrightarrow>
            settled run = Rejected E)"
    using second_main_error_surfaces [of fn run] by blast
next
  assume "deferrable_second fn = Some run"
  then show "\<forall>E. invoke fn = Throws E \<longrightarrow> settled run = Rejected E"
    by (auto simp: deferrable_second_throws)
next
  assume "deferrable_second fn = Some run"
  then show "\<forall>V. settled run = Fulfilled V \<longrightarrow>
         (\<forall>c \<in> set (calls run). completion c = Some (Fulfilled ())) \<and>
         (invoke fn = Returns (Some (Fulfilled V)) \<or>
          invoke fn = Returns (Some (Rejected Undefined)) \<and> V = Undefined)"
    using second_fulfilled_only_without_error [of fn run] by blast
next
  assume "deferrable_first fn = Some run \<and> (\<forall>c \<in> set (calls run). written c = snd c)"
  then show "\<forall>V. invoke fn = Returns (Some (Fulfilled V)) \<longrightarrow> settled run = Fulfilled V"
    and "\<forall>E. invoke fn = Returns (Some (Rejected E)) \<and> E \<noteq> Undefined \<longrightarrow>
           settled run = Rejected E"
    using first_unwritten_outcome [of fn run] by blast+
next
  assume "invoke fn \<noteq> Returns None \<and>
    (\<forall>exec \<in> set (defers fn). \<forall>result.
        pushed (exec, result) = [] \<and> completion (exec, result) \<noteq> None)"
  then show "deferrable_second fn \<noteq> None"
    using second_settles [of fn] by blast
qed


text \<open>
  The test "fails fast when a deferred callback throws": the main callback resolved, the
  run settles, the callback \<open>second\<close> failed, and the run fails with its error.
\<close>

theorem errors_surface_witness:
  "deferrable_second
     \<lparr>defers = [recorder ''first'', thrower ''second'' (Error ''defer failed''), recorder ''third''],
      invoke = Returns (Some (Fulfilled (Str ''ok'')))\<rparr> =
   Some \<lparr>settled = Rejected (Error ''defer failed''),
         calls = [(recorder ''third'', (Str ''ok'', Undefined)),
                  (thrower ''second'' (Error ''defer failed''), (Str ''ok'', Undefined))]\<rparr> \<and>
   completion (thrower ''second'' (Error ''defer failed''), (Str ''ok'', Undefined)) =
     Some (Rejected (Error ''defer failed'')) \<and>
   settled \<lparr>settled = Rejected (Error ''defer failed''),
         calls = [(recorder ''third'', (Str ''ok'', Undefined)),
                  (thrower ''second'' (Error ''defer failed''), (Str ''ok'', Undefined))]\<rparr> =
     Rejected (Error ''defer failed'')"
proof -
  let ?fn = "\<lparr>defers = [recorder ''first'', thrower ''second'' (Error ''defer failed''),
                        recorder ''third''],
             invoke = Returns (Some (Fulfilled (Str ''ok'')))\<rparr>"
  let ?c = "(thrower ''second'' (Error ''defer failed''), (Str ''ok'', Undefined))"
  let ?run = "\<lparr>settled = Rejected (Error ''defer failed''),
         calls = [(recorder ''third'', (Str ''ok'', Undefined)), ?c]\<rparr>"
  have run: "deferrable_second ?fn = Some ?run" by (simp add: run_simps)
  have c: "completion ?c = Some (Rejected (Error ''defer failed''))"
    by (simp add: completion_def thrower_def)
  from errors_surface [of ?fn ?run] run
  have "\<forall>c \<in> set (calls ?run). \<forall>D. completion c = Some (Rejected D) \<longrightarrow>
         (\<exists>error. settled ?run = Rejected error) \<and>
         (\<forall>V. invoke ?fn = Returns (Some (Fulfilled V)) \<longrightarrow> settled ?run = Rejected D)"
    by blast
  then have "completion ?c = Some (Rejected (Error ''defer failed'')) \<longrightarrow>
             settled ?run = Rejected (Error ''defer failed'')"
    by simp
  with c run show ?thesis by blast
qed


text \<open>
  C3, as claimed: whenever a drained callback fails, draining stops and the callbacks
  still on the stack are never invoked. The first variant catches the error and goes on:
  with callbacks registered as \<open>first\<close>, \<open>second\<close> (which throws), \<open>third\<close> it invokes
  \<open>first\<close> after \<open>second\<close> has failed.
\<close>

theorem keeps_draining_counterexample:
  "deferrable_first
     \<lparr>defers = [recorder ''first'', thrower ''second'' (Error ''defer failed''), recorder ''third''],
      invoke = Returns (Some (Fulfilled (Str ''ok'')))\<rparr> =
   Some \<lparr>settled = Fulfilled (Str ''ok''),
         calls = [(recorder ''third'', (Str ''ok'', Undefined)),
                  (thrower ''second'' (Error ''defer failed''), (Str ''ok'', Undefined)),
                  (recorder ''first'', (Str ''ok'', Undefined))]\<rparr>"
  by (simp add: run_simps)

text \<open>
  C3, amended. In the second variant, when the callback at position \<open>K\<close> of the drain
  order fails (those before it having succeeded), the run settles having invoked exactly
  the first \<open>K + 1\<close> callbacks of the drain order: the callbacks registered earlier than the
  failing one, and anything the failing one pushed, are never invoked. In the first
  variant the failure is swallowed and, the callbacks registering nothing and settling,
  all of them are invoked. (Each callback is invoked on the array as the callbacks
  before it left it; when none of those invoked writes to it, each is passed \<open>result\<close>.)
\<close>

theorem fail_fast_stops_draining:
  assumes "invoke fn = Returns promise"
    and "wrap promise = Some (Fulfilled result)"
    and "K < length (defers fn)"
    and "\<forall>i<K. pushed (handed result (rev (defers fn)) ! i) = [] \<and>
               completion (handed result (rev (defers fn)) ! i) = Some (Fulfilled ())"
    and "completion (handed result (rev (defers fn)) ! K) = Some (Rejected D)"
  shows "(\<exists>run. deferrable_second fn = Some run \<and>
            calls run = take (Suc K) (handed result (rev (defers fn))) \<and>
            map fst (calls run) = take (Suc K) (rev (defers fn)) \<and>
            length (calls run) = Suc K \<and>
            ((\<forall>c \<in> set (calls run). written c = snd c) \<longrightarrow>
               calls run = map (\<lambda>exec. (exec, result)) (take (Suc K) (rev (defers fn))))) \<and>
         ((\<forall>c \<in> set (handed result (rev (defers fn))).
              pushed c = [] \<and> completion c \<noteq> None) \<longrightarrow>
          (\<exists>run. deferrable_first fn = Some run \<and>
             calls run = handed result (rev (defers fn)) \<and>
             map fst (calls run) = rev (defers fn)))"
proof -
  obtain v mainError where r: "result = (v, mainError)" by (cases result)
  let ?invoked = "take (Suc K) (handed result (rev (defers fn)))"
  have "deferrable_second fn = Some \<lparr>settled = Rejected D, calls = ?invoked\<rparr>"
    using drain_second_fail_at [OF assms(3,4,5)]
    by (simp add: deferrable_second_fulfilled [OF assms(1), of v mainError] assms(2) [unfolded r] r)
  moreover have "map fst ?invoked = take (Suc K) (rev (defers fn))"
    by (rule take_handed_fst)
  moreover have "length ?invoked = Suc K"
    using assms(3) by (simp add: handed_length)
  moreover have "?invoked = map (\<lambda>exec. (exec, result)) (take (Suc K) (rev (defers fn)))"
    if "\<forall>c \<in> set ?invoked. written c = snd c"
    using that by (rule take_handed_unwritten)
  ultimately have second: "\<exists>run. deferrable_second fn = Some run \<and>
            calls run = ?invoked \<and>
            map fst (calls run) = take (Suc K) (rev (defers fn)) \<and>
            length (calls run) = Suc K \<and>
            ((\<forall>c \<in> set (calls run). written c = snd c) \<longrightarrow>
               calls run = map (\<lambda>exec. (exec, result)) (take (Suc K) (rev (defers fn))))"
    by simp
  have first: "\<exists>run. deferrable_first fn = Some run \<and>
             calls run = handed result (rev (defers fn)) \<and>
             map fst (calls run) = rev (defers fn)"
    if "\<forall>c \<in> set (handed result (rev (defers fn))). pushed c = [] \<and> completion c \<noteq> None"
    using drain_first_all_settled [OF that]
    by (simp add: deferrable_first_fulfilled [OF assms(1,2)] handed_fst)
  show ?thesis
  proof (intro conjI impI)
    show "\<exists>run. deferrable_second fn = Some run \<and>
            calls run = ?invoked \<and>
            map fst (calls run) = take (Suc K) (rev (defers fn)) \<and>
            length (calls run) = Suc K \<and>
            ((\<forall>c \<in> set (calls run). written c = snd c) \<longrightarrow>
               calls run = map (\<lambda>exec. (exec, result)) (take (Suc K) (rev (defers fn))))"
      by (rule second)
  next
    assume "\<forall>c \<in> set (handed result (rev (defers fn))). pushed c = [] \<and> completion c \<noteq> None"
    then show "\<exists>run. deferrable_first fn = Some run \<and>
             calls run = handed result (rev (defers fn)) \<and>
             map fst (calls run) = rev (defers fn)"
      by (rule first)
  qed
qed


text \<open>
  Both the main callback and the callback registered last fail: the second variant
  invokes that callback alone, the first variant both.
\<close>

theorem fail_fast_stops_draining_witness:
  "(\<exists>run. deferrable_second
       \<lparr>defers = [recorder ''first'', thrower ''second'' (Error ''defer failed'')],
        invoke = Returns (Some (Rejected (Error ''main failed'')))\<rparr> = Some run \<and>
     calls run = [(thrower ''second'' (Error ''defer failed''), (Undefined, Error ''main failed''))] \<and>
     length (calls run) = 1) \<and>
   (\<exists>run. deferrable_first
       \<lparr>defers = [recorder ''first'', thrower ''second'' (Error ''defer failed'')],
        invoke = Returns (Some (Rejected (Error ''main failed'')))\<rparr> = Some run \<and>
     calls run = [(thrower ''second'' (Error ''defer failed''), (Undefined, Error ''main failed'')),
                  (recorder ''first'', (Undefined, Error ''main failed''))])"
proof -
  let ?fn = "\<lparr>defers = [recorder ''first'', thrower ''second'' (Error ''defer failed'')],
             invoke = Returns (Some (Rejected (Error ''main failed'')))\<rparr>"
  let ?result = "(Undefined, Error ''main failed'')"
  have order: "handed ?result (rev (defers ?fn)) =
      [(thrower ''second'' (Error ''defer failed''), ?result), (recorder ''first'', ?result)]"
    by (simp add: written_def thrower_def)
  have before: "\<forall>i<0. pushed (handed ?result (rev (defers ?fn)) ! i) = [] \<and>
      completion (handed ?result (rev (defers ?fn)) ! i) = Some (Fulfilled ())"
    by simp
  have failing: "completion (handed ?result (rev (defers ?fn)) ! 0) =
      Some (Rejected (Error ''defer failed''))"
    unfolding order by (simp add: completion_def thrower_def)
  have settle: "\<forall>c \<in> set (handed ?result (rev (defers ?fn))). pushed c = [] \<and> completion c \<noteq> None"
    unfolding order by (simp add: pushed_def completion_def thrower_def recorder_def)
  have inv: "invoke ?fn = Returns (Some (Rejected (Error ''main failed'')))" by simp
  have K: "0 < length (defers ?fn)" by simp
  note both = fail_fast_stops_draining [OF inv wrap_Rejected K before failing]
  from both [THEN conjunct1] obtain run2 where
    run2: "deferrable_second ?fn = Some run2"
      "calls run2 = take (Suc 0) (handed ?result (rev (defers ?fn)))"
      "length (calls run2) = Suc 0"
    by blast
  from both [THEN conjunct2, THEN mp, OF settle] obtain run1 where
    run1: "deferrable_first ?fn = Some run1"
      "calls run1 = handed ?result (rev (defers ?fn))"
    by blast
  have "deferrable_second ?fn = Some run2 \<and>
     calls run2 = [(thrower ''second'' (Error ''defer failed''), ?result)] \<and>
     length (calls run2) = 1"
    using run2 unfolding order by simp
  moreover have "deferrable_first ?fn = Some run1 \<and>
     calls run1 = [(thrower ''second'' (Error ''defer failed''), ?result),
                   (recorder ''first'', ?result)]"
    using run1 unfolding order by simp
  ultimately show ?thesis by blast
qed




text \<open>
  C5, as claimed: every deferred callback observes \<open>(V, no-error)\<close>. The main callback
  returns 42 and the three callbacks succeed, but \<open>b\<close> writes 0 to the first slot of the
  array it is passed, and \<open>a\<close>, drained after it, observes \<open>[0, undefined]\<close>.
\<close>

theorem success_passthrough_counterexample:
  "deferrable_second
     \<lparr>defers = [recorder ''a'', writer ''b'' (Num 0) Undefined, recorder ''c''],
      invoke = Returns (Some (Fulfilled (Num 42)))\<rparr> =
   Some \<lparr>settled = Fulfilled (Num 42),
         calls = [(recorder ''c'', (Num 42, Undefined)),
                  (writer ''b'' (Num 0) Undefined, (Num 42, Undefined)),
                  (recorder ''a'', (Num 0, Undefined))]\<rparr>"
  by (simp add: run_simps)

text \<open>
  C5, amended. The main callback resolves with \<open>V\<close> and every registered callback succeeds
  (there may be none): the run resolves with exactly \<open>V\<close>, whatever the callbacks wrote to
  the result array, and all callbacks are invoked, in reverse registration order, on the
  one result array. The callback drained first observes \<open>(V, undefined)\<close>, each later one
  what the callbacks before it left in the array: every callback observes \<open>(V, undefined)\<close>
  when none writes to it.
\<close>

theorem success_passthrough:
  assumes "invoke fn = Returns (Some (Fulfilled V))"
    and "\<forall>c \<in> set (handed (V, Undefined) (rev (defers fn))).
           pushed c = [] \<and> completion c = Some (Fulfilled ())"
  shows "deferrable_second fn =
           Some \<lparr>settled = Fulfilled V, calls = handed (V, Undefined) (rev (defers fn))\<rparr> \<and>
         map fst (handed (V, Undefined) (rev (defers fn))) = rev (defers fn) \<and>
         (defers fn \<noteq> [] \<longrightarrow> snd (hd (handed (V, Undefined) (rev (defers fn)))) = (V, Undefined)) \<and>
         ((\<forall>c \<in> set (handed (V, Undefined) (rev (defers fn))). written c = snd c) \<longrightarrow>
            handed (V, Undefined) (rev (defers fn)) =
              map (\<lambda>exec. (exec, (V, Undefined))) (rev (defers fn)))"
proof (intro conjI impI)
  show "deferrable_second fn =
           Some \<lparr>settled = Fulfilled V, calls = handed (V, Undefined) (rev (defers fn))\<rparr>"
    using drain_second_all_fulfilled [OF assms(2)]
    by (simp add: deferrable_second_fulfilled [OF assms(1), of V Undefined] wrap_Fulfilled)
  show "map fst (handed (V, Undefined) (rev (defers fn))) = rev (defers fn)"
    by (rule handed_fst)
  show "snd (hd (handed (V, Undefined) (rev (defers fn)))) = (V, Undefined)" if "defers fn \<noteq> []"
    using that by (simp add: handed_hd)
  show "handed (V, Undefined) (rev (defers fn)) =
          map (\<lambda>exec. (exec, (V, Undefined))) (rev (defers fn))"
    if "\<forall>c \<in> set (handed (V, Undefined) (rev (defers fn))). written c = snd c"
    using that by (rule handed_unwritten)
qed

text \<open>
  The first test of the repository: 42 is returned and \<open>a\<close>, \<open>b\<close>, \<open>c\<close> run as \<open>c\<close>, \<open>b\<close>, \<open>a\<close>,
  each observing \<open>[42, undefined]\<close>.
\<close>

theorem success_passthrough_witness:
  "deferrable_second
     \<lparr>defers = [recorder ''a'', recorder ''b'', recorder ''c''],
      invoke = Returns (Some (Fulfilled (Num 42)))\<rparr> =
   Some \<lparr>settled = Fulfilled (Num 42),
         calls = [(recorder ''c'', (Num 42, Undefined)),
                  (recorder ''b'', (Num 42, Undefined)),
                  (recorder ''a'', (Num 42, Undefined))]\<rparr>"
proof -
  let ?fn = "\<lparr>defers = [recorder ''a'', recorder ''b'', recorder ''c''],
             invoke = Returns (Some (Fulfilled (Num 42)))\<rparr>"
  let ?result = "(Num 42, Undefined)"
  have order: "handed ?result (rev (defers ?fn)) =
      [(recorder ''c'', ?result), (recorder ''b'', ?result), (recorder ''a'', ?result)]"
    by (simp add: written_def recorder_def)
  have succeed: "\<forall>c \<in> set (handed ?result (rev (defers ?fn))).
      pushed c = [] \<and> completion c = Some (Fulfilled ())"
    unfolding order by (simp add: pushed_def completion_def recorder_def)
  have inv: "invoke ?fn = Returns (Some (Fulfilled (Num 42)))" by simp
  from success_passthrough [OF inv succeed, THEN conjunct1]
  show ?thesis unfolding order .
qed

text \<open>
  C6, as claimed: whenever the main callback fails with \<open>E\<close> and every callback succeeds,
  the run fails with \<open>E\<close>. Not when \<open>E\<close> is \<open>undefined\<close>: \<open>wrap\<close> stores it in the error slot,
  \<open>mainError !== undefined\<close> is false, and the run resolves.
\<close>

theorem failure_passthrough_counterexample:
  "deferrable_second
     \<lparr>defers = [recorder ''first'', recorder ''second''],
      invoke = Returns (Some (Rejected Undefined))\<rparr> =
   Some \<lparr>settled = Fulfilled Undefined,
         calls = [(recorder ''second'', (Undefined, Undefined)),
                  (recorder ''first'', (Undefined, Undefined))]\<rparr>"
  by (simp add: run_simps)

text \<open>
  C6, amended. The promise returned by the main callback rejects with an error \<open>E\<close> other
  than \<open>undefined\<close> and every registered callback succeeds: the run fails with exactly \<open>E\<close>,
  not wrapped, whatever the callbacks wrote to the result array, and all callbacks are
  invoked, in reverse registration order, on the one result array. The callback drained
  first observes \<open>(undefined, E)\<close>, each later one what the callbacks before it left in the
  array: every callback observes \<open>(undefined, E)\<close> when none writes to it.
\<close>

theorem failure_passthrough:
  assumes "invoke fn = Returns (Some (Rejected E))"
    and "E \<noteq> Undefined"
    and "\<forall>c \<in> set (handed (Undefined, E) (rev (defers fn))).
           pushed c = [] \<and> completion c = Some (Fulfilled ())"
  shows "deferrable_second fn =
           Some \<lparr>settled = Rejected E, calls = handed (Undefined, E) (rev (defers fn))\<rparr> \<and>
         map fst (handed (Undefined, E) (rev (defers fn))) = rev (defers fn) \<and>
         (defers fn \<noteq> [] \<longrightarrow> snd (hd (handed (Undefined, E) (rev (defers fn)))) = (Undefined, E)) \<and>
         ((\<forall>c \<in> set (handed (Undefined, E) (rev (defers fn))). written c = snd c) \<longrightarrow>
            handed (Undefined, E) (rev (defers fn)) =
              map (\<lambda>exec. (exec, (Undefined, E))) (rev (defers fn)))"
proof (intro conjI impI)
  show "deferrable_second fn =
           Some \<lparr>settled = Rejected E, calls = handed (Undefined, E) (rev (defers fn))\<rparr>"
    using assms(2) drain_second_all_fulfilled [OF assms(3)]
    by (simp add: deferrable_second_fulfilled [OF assms(1), of Undefined E] wrap_Rejected)
  show "map fst (handed (Undefined, E) (rev (defers fn))) = rev (defers fn)"
    by (rule handed_fst)
  show "snd (hd (handed (Undefined, E) (rev (defers fn)))) = (Undefined, E)" if "defers fn \<noteq> []"
    using that by (simp add: handed_hd)
  show "handed (Undefined, E) (rev (defers fn)) =
          map (\<lambda>exec. (exec, (Undefined, E))) (rev (defers fn))"
    if "\<forall>c \<in> set (handed (Undefined, E) (rev (defers fn))). written c = snd c"
    using that by (rule handed_unwritten)
qed

text \<open>
  The second test of the repository: the main callback throws \<open>boom\<close>, \<open>first\<close> and \<open>second\<close>
  run as \<open>second\<close>, \<open>first\<close>, and the run rejects with \<open>boom\<close>.
\<close>

theorem failure_passthrough_witness:
  "deferrable_second
     \<lparr>defers = [recorder ''first'', recorder ''second''],
      invoke = Returns (Some (Rejected (Error ''boom'')))\<rparr> =
   Some \<lparr>settled = Rejected (Error ''boom''),
         calls = [(recorder ''second'', (Undefined, Error ''boom'')),
                  (recorder ''first'', (Undefined, Error ''boom''))]\<rparr>"
proof -
  let ?fn = "\<lparr>defers = [recorder ''first'', recorder ''second''],
             invoke = Returns (Some (Rejected (Error ''boom'')))\<rparr>"
  let ?result = "(Undefined, Error ''boom'')"
  have order: "handed ?result (rev (defers ?fn)) =
      [(recorder ''second'', ?result), (recorder ''first'', ?result)]"
    by (simp add: written_def recorder_def)
  have succeed: "\<forall>c \<in> set (handed ?result (rev (defers ?fn))).
      pushed c = [] \<and> completion c = Some (Fulfilled ())"
    unfolding order by (simp add: pushed_def completion_def recorder_def)
  have inv: "invoke ?fn = Returns (Some (Rejected (Error ''boom'')))" by simp
  have E: "Error ''boom'' \<noteq> Undefined" by simp
  from failure_passthrough [OF inv E succeed, THEN conjunct1]
  show ?thesis unfolding order .
qed

text \<open>
  C7. The main callback resolves and the callback at position \<open>K\<close> of the drain order fails
  with \<open>D\<close> (those before it having succeeded): the run fails with exactly \<open>D\<close>.
\<close>

theorem deferred_failure_alone:
  assumes "invoke fn = Returns (Some (Fulfilled V))"
    and "K < length (defers fn)"
    and "\<forall>i<K. pushed (handed (V, Undefined) (rev (defers fn)) ! i) = [] \<and>
               completion (handed (V, Undefined) (rev (defers fn)) ! i) = Some (Fulfilled ())"
    and "completion (handed (V, Undefined) (rev (defers fn)) ! K) = Some (Rejected D)"
  shows "\<exists>run. deferrable_second fn = Some run \<and> settled run = Rejected D"
  using drain_second_fail_at [OF assms(2,3,4)]
  by (simp add: deferrable_second_fulfilled [OF assms(1), of V Undefined] wrap_Fulfilled)

text \<open>
  The test "fails fast when a deferred callback throws": \<open>third\<close> runs, \<open>second\<close> throws,
  the run rejects with the error \<open>second\<close> threw.
\<close>

theorem deferred_failure_alone_witness:
  "\<exists>run. deferrable_second
     \<lparr>defers = [recorder ''first'', thrower ''second'' (Error ''defer failed''), recorder ''third''],
      invoke = Returns (Some (Fulfilled (Str ''ok'')))\<rparr> = Some run \<and>
     settled run = Rejected (Error ''defer failed'')"
proof -
  let ?fn = "\<lparr>defers = [recorder ''first'', thrower ''second'' (Error ''defer failed''),
                        recorder ''third''],
             invoke = Returns (Some (Fulfilled (Str ''ok'')))\<rparr>"
  let ?result = "(Str ''ok'', Undefined)"
  have order: "handed ?result (rev (defers ?fn)) =
      [(recorder ''third'', ?result), (thrower ''second'' (Error ''defer failed''), ?result),
       (recorder ''first'', ?result)]"
    by (simp add: written_def recorder_def thrower_def)
  have before: "\<forall>i<Suc 0. pushed (handed ?result (rev (defers ?fn)) ! i) = [] \<and>
      completion (handed ?result (rev (defers ?fn)) ! i) = Some (Fulfilled ())"
    unfolding order by (simp add: pushed_def completion_def recorder_def)
  have failing: "completion (handed ?result (rev (defers ?fn)) ! Suc 0) =
      Some (Rejected (Error ''defer failed''))"
    unfolding order by (simp add: completion_def thrower_def)
  have inv: "invoke ?fn = Returns (Some (Fulfilled (Str ''ok'')))" by simp
  have K: "Suc 0 < length (defers ?fn)" by simp
  from deferred_failure_alone [OF inv K before failing] show ?thesis .
qed

text \<open>
  C8, as claimed: the captured result always carries exactly one of a value and an error,
  never neither. A promise that resolves with \<open>undefined\<close> (every \<open>Promise<void>\<close>, as in the
  examples of the README) is captured as \<open>[undefined, undefined]\<close>.
\<close>

theorem wrap_neither_counterexample:
  "wrap (Some (Fulfilled Undefined)) = Some (Fulfilled (Undefined, Undefined))"
  by (simp add: wrap_def ok_def)

text \<open>
  C8, amended. \<open>wrap\<close> never rejects; when the promise settles, \<open>wrap\<close> resolves with a result
  that never carries both a value and an error (one slot at least is \<open>undefined\<close>), and
  that carries neither exactly when the promise resolved with \<open>undefined\<close> or rejected with
  \<open>undefined\<close>.
\<close>

theorem wrap_never_rejects:
  "wrap promise \<noteq> Some (Rejected thrown) \<and>
   (\<forall>s. promise = Some s \<longrightarrow>
      (\<exists>value error. wrap promise = Some (Fulfilled (value, error)) \<and>
         (value = Undefined \<or> error = Undefined) \<and>
         ((value = Undefined \<and> error = Undefined) \<longleftrightarrow>
            (s = Fulfilled Undefined \<or> s = Rejected Undefined))))"
  by (auto simp: wrap_def ok_def failure_def split: option.splits settled.splits)

theorem wrap_never_rejects_witness:
  "wrap (Some (Rejected (Error ''boom''))) \<noteq> Some (Rejected (Error ''boom'')) \<and>
   wrap (Some (Rejected (Error ''boom''))) = Some (Fulfilled (Undefined, Error ''boom''))"
  using wrap_never_rejects [of "Some (Rejected (Error ''boom''))" "Error ''boom''"]
  by (simp add: wrap_Rejected)

text \<open>
  C9, as claimed: whenever the main callback rejects with \<open>undefined\<close>, the run resolves with
  \<open>undefined\<close>. Not in the second variant when a callback fails: the loop is left before the
  test of \<open>mainError\<close> is reached, and the run fails with the error of the callback.
\<close>

theorem undefined_error_counterexample:
  "deferrable_second
     \<lparr>defers = [thrower ''cleanup'' (Error ''defer failed'')],
      invoke = Returns (Some (Rejected Undefined))\<rparr> =
   Some \<lparr>settled = Rejected (Error ''defer failed''),
         calls = [(thrower ''cleanup'' (Error ''defer failed''), (Undefined, Undefined))]\<rparr>"
  by (simp add: run_simps)

text \<open>
  C9, amended. The promise returned by the main callback rejects with \<open>undefined\<close> (as when
  an async main callback throws \<open>undefined\<close>) and every registered callback succeeds: the
  run resolves with the value \<open>undefined\<close>, whatever the callbacks wrote to the result
  array, having invoked all callbacks in reverse registration order, the first of them
  on \<open>(undefined, undefined)\<close>.
\<close>

theorem undefined_error_resolves:
  assumes "invoke fn = Returns (Some (Rejected Undefined))"
    and "\<forall>c \<in> set (handed (Undefined, Undefined) (rev (defers fn))).
           pushed c = [] \<and> completion c = Some (Fulfilled ())"
  shows "deferrable_second fn =
           Some \<lparr>settled = Fulfilled Undefined,
                 calls = handed (Undefined, Undefined) (rev (defers fn))\<rparr> \<and>
         map fst (handed (Undefined, Undefined) (rev (defers fn))) = rev (defers fn) \<and>
         (defers fn \<noteq> [] \<longrightarrow>
            snd (hd (handed (Undefined, Undefined) (rev (defers fn)))) = (Undefined, Undefined))"
proof (intro conjI impI)
  show "deferrable_second fn =
           Some \<lparr>settled = Fulfilled Undefined,
                 calls = handed (Undefined, Undefined) (rev (defers fn))\<rparr>"
    using drain_second_all_fulfilled [OF assms(2)]
    by (simp add: deferrable_second_fulfilled [OF assms(1), of Undefined Undefined] wrap_Rejected)
  show "map fst (handed (Undefined, Undefined) (rev (defers fn))) = rev (defers fn)"
    by (rule handed_fst)
  show "snd (hd (handed (Undefined, Undefined) (rev (defers fn)))) = (Undefined, Undefined)"
    if "defers fn \<noteq> []"
    using that by (simp add: handed_hd)
qed

theorem undefined_error_resolves_witness:
  "deferrable_second
     \<lparr>defers = [recorder ''cleanup''], invoke = Returns (Some (Rejected Undefined))\<rparr> =
   Some \<lparr>settled = Fulfilled Undefined,
         calls = [(recorder ''cleanup'', (Undefined, Undefined))]\<rparr>"
proof -
  let ?fn = "\<lparr>defers = [recorder ''cleanup''], invoke = Returns (Some (Rejected Undefined))\<rparr>"
  have order: "handed (Undefined, Undefined) (rev (defers ?fn)) =
      [(recorder ''cleanup'', (Undefined, Undefined))]"
    by simp
  have succeed: "\<forall>c \<in> set (handed (Undefined, Undefined) (rev (defers ?fn))).
      pushed c = [] \<and> completion c = Some (Fulfilled ())"
    unfolding order by (simp add: pushed_def completion_def recorder_def)
  have inv: "invoke ?fn = Returns (Some (Rejected Undefined))" by simp
  from undefined_error_resolves [OF inv succeed, THEN conjunct1]
  show ?thesis unfolding order .
qed

text \<open>
  C10, as claimed: every callback pushed while the stack is drained is itself popped and
  invoked before the run settles. Not in the second variant when a callback fails:
  \<open>outer\<close> calls \<open>defer(late)\<close> and then throws, the loop is left, and the run settles
  with \<open>late\<close> still on the stack.
\<close>

theorem late_registration_counterexample:
  "deferrable_second
     \<lparr>defers = [registrar ''outer'' (recorder ''late'') (Some (Rejected (Error ''defer failed'')))],
      invoke = Returns (Some (Fulfilled (Str ''ok'')))\<rparr> =
   Some \<lparr>settled = Rejected (Error ''defer failed''),
         calls = [(registrar ''outer'' (recorder ''late'') (Some (Rejected (Error ''defer failed''))),
                   (Str ''ok'', Undefined))]\<rparr> \<and>
   pushed (registrar ''outer'' (recorder ''late'') (Some (Rejected (Error ''defer failed''))),
           (Str ''ok'', Undefined)) = [recorder ''late'']"
  by (simp add: run_simps pushed_def)

text \<open>
  C10, amended. A registration made while the stack is drained is not ignored: in every
  run of the first variant that settles, and in every run of the second variant that
  settles without a deferred callback having failed, each callback pushed during an
  invocation is itself invoked later in the same run, and the callback pushed last
  during an invocation is the very next one invoked, on the result array as that
  invocation left it (so with the same result, when no callback writes to the array).
  (In the second variant a failing callback ends the loop, and what is on the stack
  then, late registrations included, is never invoked.)
\<close>

theorem late_registration_honoured:
  assumes "deferrable_first fn = Some run \<or>
           deferrable_second fn = Some run \<and>
           (\<forall>c \<in> set (calls run). completion c = Some (Fulfilled ()))"
  shows "\<forall>i<length (calls run).
           (\<forall>late \<in> set (pushed (calls run ! i)).
              late \<in> fst ` set (drop (Suc i) (calls run))) \<and>
           (pushed (calls run ! i) \<noteq> [] \<longrightarrow>
              Suc i < length (calls run) \<and>
              calls run ! Suc i = (last (pushed (calls run ! i)), written (calls run ! i))) \<and>
           ((\<forall>c \<in> set (calls run). written c = snd c) \<longrightarrow>
              (\<forall>late \<in> set (pushed (calls run ! i)).
                 (late, snd (calls run ! i)) \<in> set (drop (Suc i) (calls run))))"
proof -
  let ?ix = "\<forall>i<length (calls run).
        (\<forall>d \<in> set (pushed (calls run ! i)). d \<in> fst ` set (drop (Suc i) (calls run))) \<and>
        (pushed (calls run ! i) \<noteq> [] \<longrightarrow>
           Suc i < length (calls run) \<and>
           calls run ! Suc i = (last (pushed (calls run ! i)), written (calls run ! i)))"
  have "?ix \<and> (\<exists>result final. chained result (calls run) final)"
    using assms
  proof
    assume "deferrable_first fn = Some run"
    then show ?thesis
    proof (cases rule: deferrable_first_run)
      case (throws thrown)
      have "chained (Undefined, Undefined) (calls run) (Undefined, Undefined)"
        using throws(3) by simp
      moreover have ?ix using throws(3) by simp
      ultimately show ?thesis by blast
    next
      case (returns promise result final)
      from drain_first_drained [OF returns(3)]
      have ch: "chained result (calls run) final"
        and "drained result (defers fn) (calls run)"
        by simp_all
      then have ?ix by (simp add: drained_def)
      with ch show ?thesis by blast
    qed
  next
    assume a: "deferrable_second fn = Some run \<and>
           (\<forall>c \<in> set (calls run). completion c = Some (Fulfilled ()))"
    then have "deferrable_second fn = Some run" by simp
    then show ?thesis
    proof (cases rule: deferrable_second_run)
      case (throws thrown)
      have "chained (Undefined, Undefined) (calls run) (Undefined, Undefined)"
        using throws(3) by simp
      moreover have ?ix using throws(3) by simp
      ultimately show ?thesis by blast
    next
      case (returns promise v mainError err)
      from drain_second_trace [OF returns(3)] obtain final where
        ch: "chained (v, mainError) (calls run) final"
        and e: "case err of
              None \<Rightarrow> \<forall>c \<in> set (calls run). completion c = Some (Fulfilled ())
            | Some D \<Rightarrow> calls run \<noteq> [] \<and> completion (last (calls run)) = Some (Rejected D) \<and>
                (\<forall>c \<in> set (butlast (calls run)). completion c = Some (Fulfilled ()))"
        by auto
      have "err = None"
      proof (cases err)
        case (Some D)
        with e have "calls run \<noteq> []" "completion (last (calls run)) = Some (Rejected D)"
          by simp_all
        then have "last (calls run) \<in> set (calls run)"
          "completion (last (calls run)) \<noteq> Some (Fulfilled ())"
          by simp_all
        with a show ?thesis by blast
      qed
      with drain_second_drained [of "(v, mainError)" "defers fn" "[]" "calls run"] returns(3)
      have "drained (v, mainError) (defers fn) (calls run)" by auto
      then have ?ix by (simp add: drained_def)
      with ch show ?thesis by blast
    qed
  qed
  then obtain result final where ix: ?ix and ch: "chained result (calls run) final"
    by blast
  have same: "(late, snd (calls run ! i)) \<in> set (drop (Suc i) (calls run))"
    if i: "i < length (calls run)" and late: "late \<in> set (pushed (calls run ! i))"
      and uw: "\<forall>c \<in> set (calls run). written c = snd c" for i late
  proof -
    from chained_unwritten [OF ch uw] have all: "\<forall>c \<in> set (calls run). snd c = result"
      by simp
    from ix i late have "late \<in> fst ` set (drop (Suc i) (calls run))" by blast
    then obtain c where c: "c \<in> set (drop (Suc i) (calls run))" "fst c = late" by auto
    from c(1) have "c \<in> set (calls run)" by (rule in_set_dropD)
    with all have "snd c = result" by simp
    moreover from all i have "snd (calls run ! i) = result" by simp
    ultimately have "c = (late, snd (calls run ! i))" using c(2) by (simp add: prod_eq_iff)
    with c(1) show ?thesis by simp
  qed
  show ?thesis
  proof (intro allI impI conjI ballI)
    fix i assume i: "i < length (calls run)"
    show "late \<in> fst ` set (drop (Suc i) (calls run))"
      if "late \<in> set (pushed (calls run ! i))" for late
      using ix i that by blast
    show "Suc i < length (calls run)" if "pushed (calls run ! i) \<noteq> []"
      using ix i that by blast
    show "calls run ! Suc i = (last (pushed (calls run ! i)), written (calls run ! i))"
      if "pushed (calls run ! i) \<noteq> []"
      using ix i that by blast
    show "(late, snd (calls run ! i)) \<in> set (drop (Suc i) (calls run))"
      if "\<forall>c \<in> set (calls run). written c = snd c" "late \<in> set (pushed (calls run ! i))" for late
      using same [OF i that(2) that(1)] .
  qed
qed

text \<open>
  \<open>early\<close> is registered by the main callback, then \<open>outer\<close>, which calls \<open>defer(late)\<close> when
  it runs: \<open>late\<close> runs right after \<open>outer\<close> and before \<open>early\<close>.
\<close>

theorem late_registration_honoured_witness:
  "deferrable_second
     \<lparr>defers = [recorder ''early'', registrar ''outer'' (recorder ''late'') (Some (Fulfilled ()))],
      invoke = Returns (Some (Fulfilled (Str ''ok'')))\<rparr> =
   Some \<lparr>settled = Fulfilled (Str ''ok''),
         calls = [(registrar ''outer'' (recorder ''late'') (Some (Fulfilled ())), (Str ''ok'', Undefined)),
                  (recorder ''late'', (Str ''ok'', Undefined)),
                  (recorder ''early'', (Str ''ok'', Undefined))]\<rparr> \<and>
   pushed (registrar ''outer'' (recorder ''late'') (Some (Fulfilled ())), (Str ''ok'', Undefined)) =
     [recorder ''late''] \<and>
   calls \<lparr>settled = Fulfilled (Str ''ok''),
         calls = [(registrar ''outer'' (recorder ''late'') (Some (Fulfilled ())), (Str ''ok'', Undefined)),
                  (recorder ''late'', (Str ''ok'', Undefined)),
                  (recorder ''early'', (Str ''ok'', Undefined))]\<rparr> ! Suc 0 =
     (recorder ''late'', (Str ''ok'', Undefined))"
proof -
  let ?outer = "registrar ''outer'' (recorder ''late'') (Some (Fulfilled ()))"
  let ?fn = "\<lparr>defers = [recorder ''early'', ?outer],
             invoke = Returns (Some (Fulfilled (Str ''ok'')))\<rparr>"
  let ?run = "\<lparr>settled = Fulfilled (Str ''ok''),
         calls = [(?outer, (Str ''ok'', Undefined)),
                  (recorder ''late'', (Str ''ok'', Undefined)),
                  (recorder ''early'', (Str ''ok'', Undefined))]\<rparr>"
  have run: "deferrable_second ?fn = Some ?run" by (simp add: run_simps)
  have fulfilled: "\<forall>c \<in> set (calls ?run). completion c = Some (Fulfilled ())"
    by (simp add: completion_def recorder_def registrar_def)
  have p: "pushed (?outer, (Str ''ok'', Undefined)) = [recorder ''late'']"
    by (simp add: pushed_def registrar_def)
  have w: "written (?outer, (Str ''ok'', Undefined)) = (Str ''ok'', Undefined)"
    by (simp add: written_def registrar_def)
  have "deferrable_first ?fn = Some ?run \<or>
        deferrable_second ?fn = Some ?run \<and>
        (\<forall>c \<in> set (calls ?run). completion c = Some (Fulfilled ()))"
    using run fulfilled by blast
  from late_registration_honoured [OF this, rule_format, of 0]
  have "pushed (calls ?run ! 0) \<noteq> [] \<longrightarrow>
          calls ?run ! Suc 0 = (last (pushed (calls ?run ! 0)), written (calls ?run ! 0))"
    by simp
  with p w have "calls ?run ! Suc 0 = (recorder ''late'', (Str ''ok'', Undefined))"
    by simp
  with run p show ?thesis by blast
qed

end
